theory Spec2Isabelle
  imports Complex_Main "HOL-Library.AList"
begin

section \<open>Certainty-factor forward chaining (engine.py, app.py)\<close>

text \<open>
  The repository holds two variants of one expert-system core: the functions of
  \<^verbatim>\<open>engine.py\<close> (\<^verbatim>\<open>combine_cf\<close>, \<^verbatim>\<open>forward_chaining\<close>) and the methods of the class
  \<^verbatim>\<open>ExpertSystem\<close> of \<^verbatim>\<open>app.py\<close>. Both are embedded here, each under its own name.

  Modelling conventions.
  \<^item> A Python \<^verbatim>\<open>float\<close> is a \<^typ>\<open>real\<close>: arithmetic is exact, there is no rounding,
    no NaN and no infinity. Every statement below is a statement about this idealised
    arithmetic.
  \<^item> A Python \<^verbatim>\<open>dict\<close> is an association list with distinct keys in insertion order;
    \<^verbatim>\<open>d[k] = v\<close> is \<^const>\<open>AList.update\<close> (an existing key keeps its place, a new key
    goes to the end), \<^verbatim>\<open>k in d\<close> and \<^verbatim>\<open>d.get(k)\<close> read through \<^const>\<open>map_of\<close>.
  \<^item> Every operation of the source that can raise is a function into
    \<open>py_error + 'a\<close>, with \<^const>\<open>Inl\<close> for the exception.
  \<^item> The \<^verbatim>\<open>while\<close> loops take fuel, one unit for each pass over the rule list; running
    out of fuel is the value \<^const>\<open>None\<close>.
  \<^item> The \<^verbatim>\<open>debug\<close> printing of \<^verbatim>\<open>engine.py\<close> has no effect on the result and is left out.
\<close>

subsection \<open>Python primitives that can raise\<close>

datatype py_error = ValueError | TypeError | ZeroDivisionError | KeyError

text \<open>\<^verbatim>\<open>x / y\<close> on floats.\<close>

definition py_truediv :: "real \<Rightarrow> real \<Rightarrow> py_error + real" where
  "py_truediv x y = (if y = 0 then Inl ZeroDivisionError else Inr (x / y))"

text \<open>\<^verbatim>\<open>d[k]\<close> on a dict.\<close>

definition py_getitem :: "('k \<times> 'v) list \<Rightarrow> 'k \<Rightarrow> py_error + 'v" where
  "py_getitem d k = (case map_of d k of None \<Rightarrow> Inl KeyError | Some v \<Rightarrow> Inr v)"

text \<open>\<^verbatim>\<open>min(xs)\<close> on a list of floats; the empty list raises.\<close>

definition py_min :: "real list \<Rightarrow> py_error + real" where
  "py_min xs = (case xs of [] \<Rightarrow> Inl ValueError | y # ys \<Rightarrow> Inr (fold min ys y))"

text \<open>
  A confidence value as the caller hands it over: \<open>Convertible r\<close> is any Python value
  \<^verbatim>\<open>v\<close> for which \<^verbatim>\<open>float(v)\<close> returns \<open>r\<close>, \<open>NotConvertible\<close> any value for which
  \<^verbatim>\<open>float(v)\<close> raises.
\<close>

datatype user_conf = Convertible real | NotConvertible

definition py_float :: "user_conf \<Rightarrow> py_error + real" where
  "py_float v = (case v of Convertible r \<Rightarrow> Inr r | NotConvertible \<Rightarrow> Inl ValueError)"

text \<open>\<^verbatim>\<open>round(x, ndigits)\<close>: to the nearest multiple of \<open>10 ^ -ndigits\<close>, ties to even.\<close>

definition round_half_even :: "real \<Rightarrow> int" where
  "round_half_even y =
     (let f = \<lfloor>y\<rfloor>; d = y - of_int f
      in if d < 1 / 2 then f else if 1 / 2 < d then f + 1
         else if even f then f else f + 1)"

definition py_round :: "real \<Rightarrow> nat \<Rightarrow> real" where
  "py_round x ndigits = of_int (round_half_even (x * 10 ^ ndigits)) / 10 ^ ndigits"

text \<open>A dict comprehension \<^verbatim>\<open>{k: v for ...}\<close> over a sequence of pairs.\<close>

definition dict_of :: "('k \<times> 'v) list \<Rightarrow> ('k \<times> 'v) list" where
  "dict_of kvs = fold (\<lambda>(k, v) d. AList.update k v d) kvs []"

subsection \<open>CF utilities of engine.py\<close>

text \<open>
  \<^verbatim>\<open>
  def combine_cf(cf1, cf2):
      if cf1 >= 0 and cf2 >= 0: return cf1 + cf2 * (1 - cf1)
      if cf1 <= 0 and cf2 <= 0: return cf1 + cf2 * (1 + cf1)
      denom = 1 - min(abs(cf1), abs(cf2))
      if denom == 0: return 0.0
      return (cf1 + cf2) / denom
  \<close>
\<close>

definition combine_cf :: "real \<Rightarrow> real \<Rightarrow> py_error + real" where
  "combine_cf cf1 cf2 =
     (if cf1 \<ge> 0 \<and> cf2 \<ge> 0 then Inr (cf1 + cf2 * (1 - cf1))
      else if cf1 \<le> 0 \<and> cf2 \<le> 0 then Inr (cf1 + cf2 * (1 + cf1))
      else let denom = 1 - min \<bar>cf1\<bar> \<bar>cf2\<bar>
           in if denom = 0 then Inr 0 else py_truediv (cf1 + cf2) denom)"

subsection \<open>CF utilities of app.py\<close>

text \<open>
  \<^verbatim>\<open>
  def combine_cf(self, cf1, cf2):
      if cf1 >= 0 and cf2 >= 0: return cf1 + cf2 * (1 - cf1)
      elif cf1 < 0 and cf2 < 0: return cf1 + cf2 * (1 + cf1)
      else: return (cf1 + cf2) / (1 - min(abs(cf1), abs(cf2)))
  \<close>
\<close>

definition ExpertSystem_combine_cf :: "real \<Rightarrow> real \<Rightarrow> py_error + real" where
  "ExpertSystem_combine_cf cf1 cf2 =
     (if cf1 \<ge> 0 \<and> cf2 \<ge> 0 then Inr (cf1 + cf2 * (1 - cf1))
      else if cf1 < 0 \<and> cf2 < 0 then Inr (cf1 + cf2 * (1 + cf1))
      else py_truediv (cf1 + cf2) (1 - min \<bar>cf1\<bar> \<bar>cf2\<bar>))"

subsection \<open>The knowledge base\<close>

text \<open>
  The knowledge base is the parsed JSON object. A symptom object has \<^verbatim>\<open>code\<close> and may have
  \<^verbatim>\<open>mb\<close> and \<^verbatim>\<open>md\<close>; a rule object has \<^verbatim>\<open>id\<close>, \<^verbatim>\<open>if\<close> and \<^verbatim>\<open>then\<close> and may have
  \<^verbatim>\<open>cf\<close>; its \<^verbatim>\<open>note\<close> is copied to the trace and never read (an absent one is the empty
  string). An absent \<^verbatim>\<open>symptoms\<close> or \<^verbatim>\<open>rules\<close> entry is the empty list, as
  \<^verbatim>\<open>kb.get(..., [])\<close> makes it.
\<close>

record symptom =
  s_code :: string
  s_mb :: "real option"
  s_md :: "real option"

record rule =
  r_id :: string
  r_if :: "string list"
  r_then :: string
  r_cf :: "real option"
  r_note :: string

record kb =
  symptoms :: "symptom list"
  rules :: "rule list"

text \<open>\<^verbatim>\<open>float(symptom.get("mb", 0.0)) - float(symptom.get("md", 0.0))\<close>\<close>

definition cf_symptom_from_mbmd :: "symptom \<Rightarrow> real" where
  "cf_symptom_from_mbmd symptom =
     (case s_mb symptom of None \<Rightarrow> 0 | Some x \<Rightarrow> x) - (case s_md symptom of None \<Rightarrow> 0 | Some x \<Rightarrow> x)"

text \<open>\<^verbatim>\<open>float(rule.get("cf", 1.0))\<close>\<close>

definition rule_strength :: "rule \<Rightarrow> real" where
  "rule_strength rule = (case r_cf rule of None \<Rightarrow> 1 | Some c \<Rightarrow> c)"

subsection \<open>forward_chaining of engine.py\<close>

record trace_item =
  t_rule_id :: string
  t_if :: "string list"
  t_antecedent_cfs :: "real list"
  t_cf_antecedent :: real
  t_rule_cf :: real
  t_rule_contribution :: real
  t_conclusion :: string
  t_old_cf :: real
  t_new_cf :: real
  t_note :: string

text \<open>The variables the \<^verbatim>\<open>while\<close> loop works on.\<close>

record fc_state =
  cf_facts :: "(string \<times> real) list"
  applied_rules :: "(string \<times> real) list"
  fired_trace :: "trace_item list"
  changed :: bool

text \<open>
  The inner loop over the antecedents: it appends the CF of each antecedent found and stops
  at the first one that is missing. The result is \<^verbatim>\<open>(antecedent_cfs, missing)\<close>.
\<close>

fun antecedent_loop :: "(string \<times> real) list \<Rightarrow> string list \<Rightarrow> real list \<Rightarrow> real list \<times> bool" where
  "antecedent_loop facts [] antecedent_cfs = (antecedent_cfs, False)"
| "antecedent_loop facts (a # as) antecedent_cfs =
     (case map_of facts a of
        Some v \<Rightarrow> antecedent_loop facts as (antecedent_cfs @ [v])
      | None \<Rightarrow> (antecedent_cfs, True))"

text \<open>The body of \<^verbatim>\<open>for rule in rules\<close>: one rule, tried once.\<close>

definition rule_step :: "rule \<Rightarrow> fc_state \<Rightarrow> py_error + fc_state" where
  "rule_step rule st =
     (let rid = r_id rule;
          antecedents = r_if rule;
          conclusion = r_then rule;
          (antecedent_cfs, missing) = antecedent_loop (cf_facts st) antecedents []
      in if missing \<or> antecedent_cfs = [] then Inr st
         else case py_min antecedent_cfs of
           Inl e \<Rightarrow> Inl e
         | Inr cf_antecedent \<Rightarrow>
             if (case map_of (applied_rules st) rid of
                   Some prev_cf \<Rightarrow> \<bar>prev_cf - cf_antecedent\<bar> < 1 / 10 ^ 9
                 | None \<Rightarrow> False) then Inr st
             else
               let rule_cf_value = rule_strength rule * cf_antecedent;
                   old_concl_cf = (case map_of (cf_facts st) conclusion of Some v \<Rightarrow> v | None \<Rightarrow> 0)
               in case (if map_of (cf_facts st) conclusion \<noteq> None
                        then combine_cf old_concl_cf rule_cf_value
                        else Inr rule_cf_value) of
                    Inl e \<Rightarrow> Inl e
                  | Inr new_concl_cf \<Rightarrow>
                      if \<bar>new_concl_cf - old_concl_cf\<bar> > 1 / 10 ^ 6
                      then Inr \<lparr>cf_facts = AList.update conclusion new_concl_cf (cf_facts st),
                                applied_rules = AList.update rid cf_antecedent (applied_rules st),
                                fired_trace = fired_trace st @
                                  [\<lparr>t_rule_id = rid, t_if = antecedents,
                                    t_antecedent_cfs = antecedent_cfs,
                                    t_cf_antecedent = cf_antecedent,
                                    t_rule_cf = rule_strength rule,
                                    t_rule_contribution = rule_cf_value,
                                    t_conclusion = conclusion,
                                    t_old_cf = old_concl_cf, t_new_cf = new_concl_cf,
                                    t_note = r_note rule\<rparr>],
                                changed = True\<rparr>
                      else Inr st)"

text \<open>One pass: the \<^verbatim>\<open>for\<close> loop over the rule list, stopped by an exception.\<close>

fun rules_pass :: "rule list \<Rightarrow> fc_state \<Rightarrow> py_error + fc_state" where
  "rules_pass [] st = Inr st"
| "rules_pass (rule # rest) st =
     (case rule_step rule st of Inl e \<Rightarrow> Inl e | Inr st' \<Rightarrow> rules_pass rest st')"

text \<open>
  \<^verbatim>\<open>while changed: changed = False; for rule in rules: ...\<close> with one unit of fuel for each
  pass. \<^const>\<open>None\<close>: the fuel ran out while \<^verbatim>\<open>changed\<close> was still set.
\<close>

fun while_changed :: "nat \<Rightarrow> rule list \<Rightarrow> fc_state \<Rightarrow> (py_error + fc_state) option" where
  "while_changed 0 rs st = (if changed st then None else Some (Inr st))"
| "while_changed (Suc fuel) rs st =
     (if changed st
      then (case rules_pass rs (st\<lparr>changed := False\<rparr>) of
              Inl e \<Rightarrow> Some (Inl e)
            | Inr st' \<Rightarrow> while_changed fuel rs st')
      else Some (Inr st))"

text \<open>
  Seeding, one entry of \<^verbatim>\<open>input_facts\<close>: \<^verbatim>\<open>float(user_conf)\<close> under
  \<^verbatim>\<open>try ... except Exception: user_conf = 1.0\<close>, then the symptom scaling.
\<close>

definition seed_fact :: "(string \<times> real) list \<Rightarrow> string \<times> user_conf \<Rightarrow>
    (string \<times> real) list \<Rightarrow> (string \<times> real) list" where
  "seed_fact base_cf entry facts =
     (let code = fst entry;
          user_conf = (case py_float (snd entry) of Inr r \<Rightarrow> r | Inl e \<Rightarrow> 1)
      in case map_of base_cf code of
           Some b \<Rightarrow> AList.update code (user_conf * b) facts
         | None \<Rightarrow> AList.update code user_conf facts)"

definition base_cf_of :: "kb \<Rightarrow> (string \<times> real) list" where
  "base_cf_of k =
     (let symptom_map = dict_of (map (\<lambda>s. (s_code s, s)) (symptoms k))
      in map (\<lambda>(code, s). (code, cf_symptom_from_mbmd s)) symptom_map)"

definition initial_state :: "kb \<Rightarrow> (string \<times> user_conf) list \<Rightarrow> fc_state" where
  "initial_state k input_facts =
     \<lparr>cf_facts = fold (seed_fact (base_cf_of k)) input_facts [],
      applied_rules = [], fired_trace = [], changed = True\<rparr>"

text \<open>\<^verbatim>\<open>cf_facts[k] = max(min(round(v, 4), 1.0), -1.0)\<close> for every entry.\<close>

definition finalize :: "(string \<times> real) list \<Rightarrow> (string \<times> real) list" where
  "finalize facts = map (\<lambda>(k, v). (k, max (min (py_round v 4) 1) (- 1))) facts"

definition translation_map :: "(string \<times> string) list" where
  "translation_map =
     [(''Anemia_due_to_malaria'', ''Anemia akibat malaria''),
      (''Respiratory_complication'', ''Komplikasi pernapasan akibat malaria''),
      (''Malaria Tertiana'', ''Malaria Tertiana''),
      (''Malaria Tropika'', ''Malaria Tropika'')]"

text \<open>\<^verbatim>\<open>translation_map.get(k, k)\<close>\<close>

definition translate :: "string \<Rightarrow> string" where
  "translate k = (case map_of translation_map k of Some label \<Rightarrow> label | None \<Rightarrow> k)"

text \<open>\<^verbatim>\<open>{translation_map.get(k, k): v for k, v in cf_facts.items()}\<close>\<close>

definition remap :: "(string \<times> real) list \<Rightarrow> (string \<times> real) list" where
  "remap facts = dict_of (map (\<lambda>(k, v). (translate k, v)) facts)"

text \<open>
  The whole function. \<^const>\<open>None\<close>: the loop did not end within the fuel;
  \<open>Some (Inl e)\<close>: exception \<open>e\<close> left the function; \<open>Some (Inr (cf_facts, fired_trace))\<close>:
  the returned pair.
\<close>

definition forward_chaining :: "nat \<Rightarrow> kb \<Rightarrow> (string \<times> user_conf) list \<Rightarrow>
    (py_error + (string \<times> real) list \<times> trace_item list) option" where
  "forward_chaining fuel k input_facts =
     (case while_changed fuel (rules k) (initial_state k input_facts) of
        None \<Rightarrow> None
      | Some (Inl e) \<Rightarrow> Some (Inl e)
      | Some (Inr st) \<Rightarrow> Some (Inr (remap (finalize (cf_facts st)), fired_trace st)))"

subsection \<open>ExpertSystem.forward_chaining of app.py\<close>

text \<open>
  \<^verbatim>\<open>get_mb_md\<close>: the first symptom with the code decides, with defaults \<open>mb = 1.0\<close> and
  \<open>md = 0.0\<close>; an unknown code gives \<open>(1.0, 0.0)\<close>.
\<close>

fun get_mb_md :: "symptom list \<Rightarrow> string \<Rightarrow> real \<times> real" where
  "get_mb_md [] symptom_code = (1, 0)"
| "get_mb_md (symptom # rest) symptom_code =
     (if s_code symptom = symptom_code
      then ((case s_mb symptom of None \<Rightarrow> 1 | Some x \<Rightarrow> x),
            (case s_md symptom of None \<Rightarrow> 0 | Some x \<Rightarrow> x))
      else get_mb_md rest symptom_code)"

definition calculate_cf :: "kb \<Rightarrow> real \<Rightarrow> string \<Rightarrow> real" where
  "calculate_cf k user_cf symptom_code =
     (let (mb, md) = get_mb_md (symptoms k) symptom_code; base_cf = mb - md
      in user_cf * base_cf)"

record es_trace_item =
  e_rule_id :: string
  e_if :: "string list"
  e_then :: string
  e_antecedent_cfs :: "real list"
  e_rule_cf :: real
  e_old_cf :: real
  e_new_cf :: real
  e_note :: string

record es_state =
  es_cf_facts :: "(string \<times> real) list"
  es_trace :: "es_trace_item list"
  rules_fired :: bool

text \<open>\<^verbatim>\<open>[cf_facts[ant] for ant in antecedents]\<close>\<close>

fun ant_cfs_of :: "(string \<times> real) list \<Rightarrow> string list \<Rightarrow> py_error + real list" where
  "ant_cfs_of facts [] = Inr []"
| "ant_cfs_of facts (ant # rest) =
     (case py_getitem facts ant of
        Inl e \<Rightarrow> Inl e
      | Inr v \<Rightarrow> (case ant_cfs_of facts rest of Inl e \<Rightarrow> Inl e | Inr vs \<Rightarrow> Inr (v # vs)))"

text \<open>The body of \<^verbatim>\<open>for rule in self.kb.get('rules', [])\<close>.\<close>

definition es_rule_step :: "rule \<Rightarrow> es_state \<Rightarrow> py_error + es_state" where
  "es_rule_step rule st =
     (let rule_id = r_id rule;
          antecedents = r_if rule;
          conclusion = r_then rule;
          rule_cf = rule_strength rule
      in if map_of (es_cf_facts st) conclusion \<noteq> None \<and> rule_id \<in> set (map e_rule_id (es_trace st))
         then Inr st
         else if \<not> list_all (\<lambda>ant. map_of (es_cf_facts st) ant \<noteq> None) antecedents
         then Inr st
         else case ant_cfs_of (es_cf_facts st) antecedents of
           Inl e \<Rightarrow> Inl e
         | Inr ant_cfs \<Rightarrow>
            (case py_min ant_cfs of
               Inl e \<Rightarrow> Inl e
             | Inr min_cf \<Rightarrow>
                let rule_contribution = rule_cf * min_cf;
                    old_cf = (case map_of (es_cf_facts st) conclusion of Some v \<Rightarrow> v | None \<Rightarrow> 0)
                in case (if map_of (es_cf_facts st) conclusion \<noteq> None
                         then ExpertSystem_combine_cf old_cf rule_contribution
                         else Inr rule_contribution) of
                     Inl e \<Rightarrow> Inl e
                   | Inr new_cf \<Rightarrow>
                       if \<bar>new_cf - old_cf\<bar> > 1 / 10 ^ 6
                       then Inr \<lparr>es_cf_facts = AList.update conclusion new_cf (es_cf_facts st),
                                 es_trace = es_trace st @
                                   [\<lparr>e_rule_id = rule_id, e_if = antecedents, e_then = conclusion,
                                     e_antecedent_cfs = ant_cfs, e_rule_cf = rule_cf,
                                     e_old_cf = old_cf, e_new_cf = new_cf,
                                     e_note = r_note rule\<rparr>],
                                 rules_fired = True\<rparr>
                       else Inr st))"

fun es_rules_pass :: "rule list \<Rightarrow> es_state \<Rightarrow> py_error + es_state" where
  "es_rules_pass [] st = Inr st"
| "es_rules_pass (rule # rest) st =
     (case es_rule_step rule st of Inl e \<Rightarrow> Inl e | Inr st' \<Rightarrow> es_rules_pass rest st')"

fun while_rules_fired :: "nat \<Rightarrow> rule list \<Rightarrow> es_state \<Rightarrow> (py_error + es_state) option" where
  "while_rules_fired 0 rs st = (if rules_fired st then None else Some (Inr st))"
| "while_rules_fired (Suc fuel) rs st =
     (if rules_fired st
      then (case es_rules_pass rs (st\<lparr>rules_fired := False\<rparr>) of
              Inl e \<Rightarrow> Some (Inl e)
            | Inr st' \<Rightarrow> while_rules_fired fuel rs st')
      else Some (Inr st))"

definition es_initial_state :: "kb \<Rightarrow> (string \<times> real) list \<Rightarrow> es_state" where
  "es_initial_state k facts =
     \<lparr>es_cf_facts = fold (\<lambda>(code, user_cf) d. AList.update code (calculate_cf k user_cf code) d) facts [],
      es_trace = [], rules_fired = True\<rparr>"

definition ExpertSystem_forward_chaining :: "nat \<Rightarrow> kb \<Rightarrow> (string \<times> real) list \<Rightarrow>
    (py_error + (string \<times> real) list \<times> es_trace_item list) option" where
  "ExpertSystem_forward_chaining fuel k facts =
     (case while_rules_fired fuel (rules k) (es_initial_state k facts) of
        None \<Rightarrow> None
      | Some (Inl e) \<Rightarrow> Some (Inl e)
      | Some (Inr st) \<Rightarrow> Some (Inr (es_cf_facts st, es_trace st)))"

subsection \<open>Notions used in the statements\<close>







text \<open>
  A chain in which the antecedent of the first rule changes after that rule has fired:
  \<open>R1: if B then C\<close> is tried before \<open>R2: if A then B\<close>.
\<close>

definition chain_kb :: kb where
  "chain_kb =
     \<lparr>symptoms = [],
      rules = [\<lparr>r_id = ''R1'', r_if = [''B''], r_then = ''C'', r_cf = None, r_note = ''''\<rparr>,
               \<lparr>r_id = ''R2'', r_if = [''A''], r_then = ''B'', r_cf = None, r_note = ''''\<rparr>]\<rparr>"

text \<open>
  The loop invariant of \<^verbatim>\<open>ExpertSystem.forward_chaining\<close>: the conclusion of every trace
  entry is in the fact store, every entry stems from a rule of the knowledge base, and no
  two entries share both rule id and conclusion.
\<close>

definition es_inv :: "rule list \<Rightarrow> es_state \<Rightarrow> bool" where
  "es_inv rs st =
     ((\<forall>e \<in> set (es_trace st). map_of (es_cf_facts st) (e_then e) \<noteq> None \<and>
          (\<exists>r \<in> set rs. e_rule_id e = r_id r \<and> e_then e = r_then r)) \<and>
      distinct (map (\<lambda>e. (e_rule_id e, e_then e)) (es_trace st)))"

text \<open>
  Two rules that feed each other, all strengths and confidences within \<open>[-1, 1]\<close>:
  \<open>R1: if A then B\<close> of strength \<open>-1.0\<close> and \<open>R2: if B then A\<close> of strength \<open>1.0\<close>, run on
  \<open>A = 0.25\<close>, \<open>B = 0.625\<close>. The values \<open>(A, B, memo of R1, memo of R2)\<close> after each pass
  go round the six states of \<open>cycle_orbit\<close>.
\<close>

definition cycle_kb :: kb where
  "cycle_kb =
     \<lparr>symptoms = [],
      rules = [\<lparr>r_id = ''R1'', r_if = [''A''], r_then = ''B'', r_cf = Some (- 1), r_note = ''''\<rparr>,
               \<lparr>r_id = ''R2'', r_if = [''B''], r_then = ''A'', r_cf = Some 1, r_note = ''''\<rparr>]\<rparr>"

definition cycle_input :: "(string \<times> user_conf) list" where
  "cycle_input = [(''A'', Convertible (1 / 4)), (''B'', Convertible (5 / 8))]"

definition cycle_orbit :: "(real \<times> real \<times> real \<times> real) list" where
  "cycle_orbit =
     [(5 / 8, 1 / 2, 1 / 4, 1 / 2),
      (1 / 2, - (1 / 4), 5 / 8, - (1 / 4)),
      (- (1 / 4), - (5 / 8), 1 / 2, - (5 / 8)),
      (- (5 / 8), - (1 / 2), - (1 / 4), - (1 / 2)),
      (- (1 / 2), 1 / 4, - (5 / 8), 1 / 4),
      (1 / 4, 5 / 8, - (1 / 2), 5 / 8)]"

definition on_cycle :: "fc_state \<Rightarrow> bool" where
  "on_cycle st =
     (\<exists>(a, b, m1, m2) \<in> set cycle_orbit.
        cf_facts st = [(''A'', a), (''B'', b)] \<and> applied_rules st = [(''R1'', m1), (''R2'', m2)])"

text \<open>
  For the termination argument: the antecedent CF a rule would compute on a fact store
  (\<^const>\<open>None\<close> when an antecedent is missing or there is none), the rules the memo holds
  back, and a potential that counts the rules not held back, a rule weighing
  \<open>(number of rules + 1) ^ h(conclusion)\<close> for a height \<open>h\<close> of the fact codes.
\<close>

definition antecedent_cf :: "(string \<times> real) list \<Rightarrow> rule \<Rightarrow> real option" where
  "antecedent_cf facts r =
     (case antecedent_loop facts (r_if r) [] of
        (antecedent_cfs, missing) \<Rightarrow>
          if missing \<or> antecedent_cfs = [] then None
          else (case py_min antecedent_cfs of Inr c \<Rightarrow> Some c | Inl e \<Rightarrow> None))"

definition blocked :: "rule \<Rightarrow> fc_state \<Rightarrow> bool" where
  "blocked r st =
     (case antecedent_cf (cf_facts st) r of
        None \<Rightarrow> False
      | Some c \<Rightarrow>
          (case map_of (applied_rules st) (r_id r) of
             None \<Rightarrow> False
           | Some p \<Rightarrow> \<bar>p - c\<bar> < 1 / 10 ^ 9))"

definition potential :: "(string \<Rightarrow> nat) \<Rightarrow> rule list \<Rightarrow> fc_state \<Rightarrow> nat" where
  "potential h rs st =
     (\<Sum>r\<leftarrow>rs. if blocked r st then 0 else (length rs + 1) ^ h (r_then r))"


section \<open>Properties of the combination\<close>

lemma combine_cf_Inr: "\<exists>r. combine_cf a b = Inr r"
  by (simp add: combine_cf_def py_truediv_def Let_def)






text \<open>
  The variant of app.py has no guard: where the denominator vanishes it raises. Everywhere
  else the two variants agree, also at zero, where they take different branches.
\<close>

lemma ExpertSystem_combine_cf_raises: "ExpertSystem_combine_cf 1 (- 1) = Inl ZeroDivisionError"
  by (simp add: ExpertSystem_combine_cf_def py_truediv_def)

lemma ExpertSystem_combine_cf_agrees:
  "ExpertSystem_combine_cf a b = Inr r \<Longrightarrow> combine_cf a b = Inr r"
  by (auto simp: ExpertSystem_combine_cf_def combine_cf_def py_truediv_def Let_def
      split: if_splits)

section \<open>The engine raises no exception\<close>

lemma py_min_Inr: "xs \<noteq> [] \<Longrightarrow> \<exists>c. py_min xs = Inr c"
  by (cases xs) (simp_all add: py_min_def)

lemma rule_step_cases:
  obtains (skip) "rule_step r st = Inr st"
  | (fire) cfs c new where
      "antecedent_loop (cf_facts st) (r_if r) [] = (cfs, False)" "cfs \<noteq> []"
      "py_min cfs = Inr c"
      "\<forall>p. map_of (applied_rules st) (r_id r) = Some p \<longrightarrow> \<not> \<bar>p - c\<bar> < 1 / 10 ^ 9"
      "(if map_of (cf_facts st) (r_then r) \<noteq> None
        then combine_cf (case map_of (cf_facts st) (r_then r) of Some v \<Rightarrow> v | None \<Rightarrow> 0) (rule_strength r * c)
        else Inr (rule_strength r * c)) = Inr new"
      "\<bar>new - (case map_of (cf_facts st) (r_then r) of Some v \<Rightarrow> v | None \<Rightarrow> 0)\<bar> > 1 / 10 ^ 6"
      "rule_step r st = Inr
         \<lparr>cf_facts = AList.update (r_then r) new (cf_facts st),
          applied_rules = AList.update (r_id r) c (applied_rules st),
          fired_trace = fired_trace st @
            [\<lparr>t_rule_id = r_id r, t_if = r_if r, t_antecedent_cfs = cfs, t_cf_antecedent = c,
              t_rule_cf = rule_strength r, t_rule_contribution = rule_strength r * c,
              t_conclusion = r_then r,
              t_old_cf = (case map_of (cf_facts st) (r_then r) of Some v \<Rightarrow> v | None \<Rightarrow> 0),
              t_new_cf = new, t_note = r_note r\<rparr>],
          changed = True\<rparr>"
proof -
  obtain cfs missing where al: "antecedent_loop (cf_facts st) (r_if r) [] = (cfs, missing)"
    by (cases "antecedent_loop (cf_facts st) (r_if r) []")
  show thesis
  proof (cases "missing \<or> cfs = []")
    case True
    with al have "rule_step r st = Inr st" by (auto simp: rule_step_def)
    then show thesis by (rule skip)
  next
    case False
    then obtain c where c: "py_min cfs = Inr c" using py_min_Inr by blast
    let ?old = "case map_of (cf_facts st) (r_then r) of Some v \<Rightarrow> v | None \<Rightarrow> 0"
    have "\<exists>new. (if map_of (cf_facts st) (r_then r) \<noteq> None
        then combine_cf ?old (rule_strength r * c)
        else Inr (rule_strength r * c)) = Inr new"
      using combine_cf_Inr [of ?old "rule_strength r * c"] by simp
    then obtain new where new: "(if map_of (cf_facts st) (r_then r) \<noteq> None
        then combine_cf ?old (rule_strength r * c)
        else Inr (rule_strength r * c)) = Inr new" ..
    show thesis
    proof (cases "(\<exists>p. map_of (applied_rules st) (r_id r) = Some p \<and> \<bar>p - c\<bar> < 1 / 10 ^ 9) \<or> \<not> \<bar>new - ?old\<bar> > 1 / 10 ^ 6")
      case True
      with al False c new have "rule_step r st = Inr st"
        by (auto simp: rule_step_def Let_def split: option.splits)
      then show thesis by (rule skip)
    next
      case F2: False
      show thesis
        apply (rule fire [of cfs c new])
        using al False c new F2 apply (auto simp: rule_step_def Let_def split: option.splits)
        done
    qed
  qed
qed


lemma antecedent_loop_cong:
  "(\<forall>a \<in> set as. map_of f1 a = map_of f2 a) \<Longrightarrow>
   antecedent_loop f1 as acc = antecedent_loop f2 as acc"
  by (induction as arbitrary: acc) (auto split: option.splits)

lemma rule_step_Inr: "\<exists>st'. rule_step r st = Inr st'"
  by (rule rule_step_cases [of r st]) auto

lemma rules_pass_Inr: "\<exists>st'. rules_pass rs st = Inr st'"
proof (induction rs arbitrary: st)
  case Nil
  show ?case by simp
next
  case (Cons r rs)
  obtain st1 where "rule_step r st = Inr st1"
    using rule_step_Inr by blast
  with Cons.IH [of st1] show ?case by simp
qed












section \<open>Finalization and the label table\<close>

lemma set_update_subset: "set (AList.update k v al) \<subseteq> insert (k, v) (set al)"
  by (induction al) auto

lemma set_fold_update_subset:
  "set (fold (\<lambda>(k, v) d. AList.update k v d) kvs d0) \<subseteq> set kvs \<union> set d0"
proof (induction kvs arbitrary: d0)
  case Nil
  show ?case by simp
next
  case (Cons kv kvs)
  obtain k v where kv: "kv = (k, v)" by (cases kv)
  have "set (fold (\<lambda>(k, v) d. AList.update k v d) kvs (AList.update k v d0))
      \<subseteq> set kvs \<union> set (AList.update k v d0)"
    by (rule Cons.IH)
  also have "\<dots> \<subseteq> set kvs \<union> insert (k, v) (set d0)"
    using set_update_subset [of k v d0] by blast
  finally show ?case by (auto simp: kv)
qed

lemma set_dict_of_subset: "set (dict_of kvs) \<subseteq> set kvs"
  using set_fold_update_subset [of kvs "[]"] by (simp add: dict_of_def)

lemma keys_fold_update:
  "fst ` set (fold (\<lambda>(k, v) d. AList.update k v d) kvs d0) = fst ` set kvs \<union> fst ` set d0"
  by (induction kvs arbitrary: d0) (auto simp: dom_update split: prod.splits)

lemma keys_dict_of: "fst ` set (dict_of kvs) = fst ` set kvs"
  by (simp add: dict_of_def keys_fold_update)





lemma remap_subset:
  "(label, v) \<in> set (remap facts) \<Longrightarrow> \<exists>code. (code, v) \<in> set facts \<and> translate code = label"
  using set_dict_of_subset [of "map (\<lambda>(k, v). (translate k, v)) facts"]
  by (auto simp: remap_def)

lemma keys_remap: "fst ` set (remap facts) = translate ` fst ` set facts"
  by (force simp: remap_def keys_dict_of image_iff split: prod.splits)

lemma keys_finalize: "fst ` set (finalize facts) = fst ` set facts"
  by (force simp: finalize_def image_iff)

lemma forward_chaining_Inr_D:
  assumes "forward_chaining fuel k input_facts = Some (Inr (final_facts, trace))"
  shows "\<exists>st. while_changed fuel (rules k) (initial_state k input_facts) = Some (Inr st) \<and>
      final_facts = remap (finalize (cf_facts st)) \<and> trace = fired_trace st"
  using assms by (auto simp: forward_chaining_def split: option.splits sum.splits)



lemma translate_unmapped: "code \<notin> fst ` set translation_map \<Longrightarrow> translate code = code"
  by (simp add: translate_def map_of_eq_None_iff [symmetric] del: map_of_eq_None_iff)

text \<open>
  C8, as the code has it. \<^verbatim>\<open>forward_chaining\<close> of engine.py applies its own fixed label table
  to the keys, once, after the loop has ended and the values are clamped and rounded. The
  returned mapping is keyed by the labels: its keys are the images of the internal codes
  under the table, every returned value is the finalized value of an internal code that
  carries the label, and a code without an entry in the table is its own label. The trace is
  the loop's trace, untouched.
\<close>

theorem remap_inside_engine:
  assumes "forward_chaining fuel k input_facts = Some (Inr (final_facts, trace))"
  shows "\<exists>st. while_changed fuel (rules k) (initial_state k input_facts) = Some (Inr st) \<and>
           trace = fired_trace st \<and>
           final_facts = remap (finalize (cf_facts st)) \<and>
           fst ` set final_facts = translate ` fst ` set (cf_facts st) \<and>
           (\<forall>(label, v) \<in> set final_facts.
              \<exists>code. (code, v) \<in> set (finalize (cf_facts st)) \<and> translate code = label) \<and>
           (\<forall>code. code \<notin> fst ` set translation_map \<longrightarrow> translate code = code)"
proof -
  from forward_chaining_Inr_D [OF assms]
  obtain st where st: "while_changed fuel (rules k) (initial_state k input_facts) = Some (Inr st)"
    and f: "final_facts = remap (finalize (cf_facts st))" and t: "trace = fired_trace st"
    by blast
  have keys: "fst ` set final_facts = translate ` fst ` set (cf_facts st)"
    by (simp add: f keys_remap keys_finalize)
  have vals: "\<forall>(label, v) \<in> set final_facts.
      \<exists>code. (code, v) \<in> set (finalize (cf_facts st)) \<and> translate code = label"
    using remap_subset f by blast
  have un: "\<forall>code. code \<notin> fst ` set translation_map \<longrightarrow> translate code = code"
    by (simp add: translate_unmapped)
  from st f t keys vals un show ?thesis
    by blast
qed

theorem remap_inside_engine_witness:
  "\<exists>st. while_changed 1 [] (initial_state \<lparr>symptoms = [], rules = []\<rparr>
           [(''Anemia_due_to_malaria'', Convertible (1 / 2))]) = Some (Inr st) \<and>
         [(''Anemia akibat malaria'', 1 / 2)] = remap (finalize (cf_facts st)) \<and>
         fst ` set [(''Anemia akibat malaria'', 1 / 2 :: real)] = translate ` fst ` set (cf_facts st)"
proof -
  have run: "forward_chaining 1 \<lparr>symptoms = [], rules = []\<rparr>
      [(''Anemia_due_to_malaria'', Convertible (1 / 2))] =
    Some (Inr ([(''Anemia akibat malaria'', 1 / 2)], []))"
    by code_simp
  have r: "rules \<lparr>symptoms = [], rules = []\<rparr> = []"
    by simp
  from remap_inside_engine [OF run] show ?thesis
    unfolding r by blast
qed

text \<open>
  C8, as the specification has it, fails: the fact asserted under the internal code
  \<open>Anemia_due_to_malaria\<close> comes back under the display label, and the internal code is no
  key of the returned mapping.
\<close>

theorem remap_counterexample:
  "forward_chaining 1 \<lparr>symptoms = [], rules = []\<rparr> [(''Anemia_due_to_malaria'', Convertible (1 / 2))] =
     Some (Inr ([(''Anemia akibat malaria'', 1 / 2)], [])) \<and>
   ''Anemia_due_to_malaria'' \<notin> fst ` set [(''Anemia akibat malaria'', 1 / 2 :: real)]"
  by code_simp

section \<open>The memo of antecedent CFs\<close>




















section \<open>ExpertSystem.forward_chaining fires a rule once\<close>

lemma es_rule_step_skip:
  "map_of (es_cf_facts st) (r_then r) \<noteq> None \<Longrightarrow> r_id r \<in> set (map e_rule_id (es_trace st)) \<Longrightarrow>
   es_rule_step r st = Inr st"
  by (simp add: es_rule_step_def)

lemma es_rule_step_cases:
  assumes "es_rule_step r st = Inr st'"
  obtains (skip) "st' = st"
  | (fire) ant_cfs new_cf old_cf where
      "\<not> (map_of (es_cf_facts st) (r_then r) \<noteq> None \<and> r_id r \<in> set (map e_rule_id (es_trace st)))"
      "st' = \<lparr>es_cf_facts = AList.update (r_then r) new_cf (es_cf_facts st),
              es_trace = es_trace st @
                [\<lparr>e_rule_id = r_id r, e_if = r_if r, e_then = r_then r,
                  e_antecedent_cfs = ant_cfs, e_rule_cf = rule_strength r,
                  e_old_cf = old_cf, e_new_cf = new_cf, e_note = r_note r\<rparr>],
              rules_fired = True\<rparr>"
  using assms
  by (auto simp: es_rule_step_def Let_def split: if_splits sum.splits)

lemma es_inv_rule_step:
  assumes inv: "es_inv rs st" and r: "r \<in> set rs" and step: "es_rule_step r st = Inr st'"
  shows "es_inv rs st'"
proof (rule es_rule_step_cases [OF step])
  assume "st' = st"
  with inv show ?thesis by simp
next
  fix ant_cfs new_cf old_cf
  let ?e = "\<lparr>e_rule_id = r_id r, e_if = r_if r, e_then = r_then r,
                  e_antecedent_cfs = ant_cfs, e_rule_cf = rule_strength r,
                  e_old_cf = old_cf, e_new_cf = new_cf, e_note = r_note r\<rparr>"
  assume guard: "\<not> (map_of (es_cf_facts st) (r_then r) \<noteq> None \<and> r_id r \<in> set (map e_rule_id (es_trace st)))"
    and st': "st' = \<lparr>es_cf_facts = AList.update (r_then r) new_cf (es_cf_facts st),
              es_trace = es_trace st @ [?e], rules_fired = True\<rparr>"
  from inv have present: "\<forall>e \<in> set (es_trace st). map_of (es_cf_facts st) (e_then e) \<noteq> None"
    and from_rule: "\<forall>e \<in> set (es_trace st). \<exists>r \<in> set rs. e_rule_id e = r_id r \<and> e_then e = r_then r"
    and dist: "distinct (map (\<lambda>e. (e_rule_id e, e_then e)) (es_trace st))"
    by (auto simp: es_inv_def)
  have new: "(r_id r, r_then r) \<notin> set (map (\<lambda>e. (e_rule_id e, e_then e)) (es_trace st))"
  proof
    assume "(r_id r, r_then r) \<in> set (map (\<lambda>e. (e_rule_id e, e_then e)) (es_trace st))"
    then obtain e where e: "e \<in> set (es_trace st)" "e_rule_id e = r_id r" "e_then e = r_then r"
      by auto
    with present have "map_of (es_cf_facts st) (r_then r) \<noteq> None"
      by metis
    moreover from e have "r_id r \<in> set (map e_rule_id (es_trace st))"
      by force
    ultimately show False using guard by simp
  qed
  have p': "\<forall>e \<in> set (es_trace st'). map_of (es_cf_facts st') (e_then e) \<noteq> None"
    using present by (auto simp: st' update_conv')
  have f': "\<forall>e \<in> set (es_trace st'). \<exists>r \<in> set rs. e_rule_id e = r_id r \<and> e_then e = r_then r"
    using from_rule r by (auto simp: st')
  have d': "distinct (map (\<lambda>e. (e_rule_id e, e_then e)) (es_trace st'))"
    using dist new by (simp add: st')
  from p' f' d' show ?thesis
    by (simp add: es_inv_def)
qed

lemma es_inv_rules_pass:
  "es_inv rs0 st \<Longrightarrow> set rs \<subseteq> set rs0 \<Longrightarrow> es_rules_pass rs st = Inr st' \<Longrightarrow> es_inv rs0 st'"
proof (induction rs arbitrary: st)
  case Nil
  then show ?case by simp
next
  case (Cons r rs)
  from Cons.prems(3) obtain st1 where 1: "es_rule_step r st = Inr st1"
    and 2: "es_rules_pass rs st1 = Inr st'"
    by (auto split: sum.splits)
  from Cons.prems(2) have r: "r \<in> set rs0" and sub: "set rs \<subseteq> set rs0"
    by auto
  from es_inv_rule_step [OF Cons.prems(1) r 1] have "es_inv rs0 st1" .
  from Cons.IH [OF this sub 2] show ?case .
qed

lemma es_inv_rules_fired: "es_inv rs (st\<lparr>rules_fired := b\<rparr>) = es_inv rs st"
  by (simp add: es_inv_def)

lemma es_inv_while:
  "es_inv rs st \<Longrightarrow> while_rules_fired fuel rs st = Some (Inr st') \<Longrightarrow> es_inv rs st'"
proof (induction fuel arbitrary: st)
  case 0
  then show ?case by (auto split: if_splits)
next
  case (Suc fuel)
  show ?case
  proof (cases "rules_fired st")
    case False
    with Suc.prems show ?thesis by simp
  next
    case True
    with Suc.prems(2) obtain st1 where 1: "es_rules_pass rs (st\<lparr>rules_fired := False\<rparr>) = Inr st1"
      and 2: "while_rules_fired fuel rs st1 = Some (Inr st')"
      by (auto split: sum.splits)
    from Suc.prems(1) have "es_inv rs (st\<lparr>rules_fired := False\<rparr>)"
      by (simp add: es_inv_rules_fired)
    from es_inv_rules_pass [OF this subset_refl 1] have "es_inv rs st1" .
    from Suc.IH [OF this 2] show ?thesis .
  qed
qed

lemma es_inv_initial: "es_inv rs (es_initial_state k facts)"
  by (simp add: es_inv_def es_initial_state_def)

lemma es_inv_distinct_ids:
  assumes "es_inv rs st" "distinct (map r_id rs)"
  shows "distinct (map e_rule_id (es_trace st))"
proof -
  from assms(1) have from_rule: "\<forall>e \<in> set (es_trace st). \<exists>r \<in> set rs. e_rule_id e = r_id r \<and> e_then e = r_then r"
    and dist: "distinct (map (\<lambda>e. (e_rule_id e, e_then e)) (es_trace st))"
    by (auto simp: es_inv_def)
  from assms(2) have inj: "inj_on r_id (set rs)"
    by (simp add: distinct_map)
  have "inj_on e_rule_id (set (es_trace st)) \<and> distinct (es_trace st)"
  proof
    show "distinct (es_trace st)"
      using dist by (simp add: distinct_map)
    show "inj_on e_rule_id (set (es_trace st))"
    proof (rule inj_onI)
      fix e e'
      assume e: "e \<in> set (es_trace st)" and e': "e' \<in> set (es_trace st)"
        and eq: "e_rule_id e = e_rule_id e'"
      from from_rule e obtain r where r: "r \<in> set rs" "e_rule_id e = r_id r" "e_then e = r_then r"
        by blast
      from from_rule e' obtain r' where r': "r' \<in> set rs" "e_rule_id e' = r_id r'" "e_then e' = r_then r'"
        by blast
      from r r' eq inj have "r = r'"
        by (auto dest: inj_onD)
      with r r' eq have "(e_rule_id e, e_then e) = (e_rule_id e', e_then e')"
        by simp
      with dist e e' show "e = e'"
        by (auto simp: distinct_map dest: inj_onD)
    qed
  qed
  then show ?thesis
    by (simp add: distinct_map)
qed

text \<open>
  C9. In \<^verbatim>\<open>ExpertSystem.forward_chaining\<close> of app.py a rule whose id is in the trace and
  whose conclusion is in the fact store is skipped, whatever its antecedents have become.
  A conclusion once stored stays, so in the trace of every run no two entries share rule id
  and conclusion: each rule fires at most once. With the unique rule ids of the data model
  the trace holds at most one entry per rule id.
\<close>

theorem ExpertSystem_rule_fires_once:
  "(map_of (es_cf_facts st) (r_then r) \<noteq> None \<and> r_id r \<in> set (map e_rule_id (es_trace st)) \<longrightarrow>
      es_rule_step r st = Inr st) \<and>
   (ExpertSystem_forward_chaining fuel k facts = Some (Inr (result, trace)) \<longrightarrow>
      distinct (map (\<lambda>e. (e_rule_id e, e_then e)) trace) \<and>
      (\<forall>e \<in> set trace. map_of result (e_then e) \<noteq> None) \<and>
      (distinct (map r_id (rules k)) \<longrightarrow> distinct (map e_rule_id trace)))"
proof (intro conjI impI)
  assume "map_of (es_cf_facts st) (r_then r) \<noteq> None \<and> r_id r \<in> set (map e_rule_id (es_trace st))"
  then show "es_rule_step r st = Inr st"
    using es_rule_step_skip by blast
next
  assume run: "ExpertSystem_forward_chaining fuel k facts = Some (Inr (result, trace))"
  then have "\<exists>st'. while_rules_fired fuel (rules k) (es_initial_state k facts) = Some (Inr st') \<and>
      result = es_cf_facts st' \<and> trace = es_trace st'"
    by (auto simp: ExpertSystem_forward_chaining_def split: option.splits sum.splits)
  then obtain st' where w: "while_rules_fired fuel (rules k) (es_initial_state k facts) = Some (Inr st')"
    and c: "result = es_cf_facts st'" and t: "trace = es_trace st'"
    by blast
  from es_inv_while [OF es_inv_initial w] have inv: "es_inv (rules k) st'" .
  then show "distinct (map (\<lambda>e. (e_rule_id e, e_then e)) trace)"
    and "\<forall>e \<in> set trace. map_of result (e_then e) \<noteq> None"
    by (simp_all add: es_inv_def c t)
  assume "distinct (map r_id (rules k))"
  with inv show "distinct (map e_rule_id trace)"
    unfolding t by (rule es_inv_distinct_ids)
qed

theorem ExpertSystem_rule_fires_once_witness:
  "es_rule_step \<lparr>r_id = ''R1'', r_if = [''B''], r_then = ''C'', r_cf = None, r_note = ''''\<rparr>
     \<lparr>es_cf_facts = [(''A'', 1 / 2), (''B'', 3 / 5), (''C'', 1 / 5)],
      es_trace = [\<lparr>e_rule_id = ''R1'', e_if = [''B''], e_then = ''C'',
            e_antecedent_cfs = [1 / 5], e_rule_cf = 1, e_old_cf = 0,
            e_new_cf = 1 / 5, e_note = []\<rparr>],
      rules_fired = False\<rparr> =
   Inr \<lparr>es_cf_facts = [(''A'', 1 / 2), (''B'', 3 / 5), (''C'', 1 / 5)],
      es_trace = [\<lparr>e_rule_id = ''R1'', e_if = [''B''], e_then = ''C'',
            e_antecedent_cfs = [1 / 5], e_rule_cf = 1, e_old_cf = 0,
            e_new_cf = 1 / 5, e_note = []\<rparr>],
      rules_fired = False\<rparr> \<and>
   distinct (map e_rule_id
     [\<lparr>e_rule_id = ''R1'', e_if = [''B''], e_then = ''C'',
            e_antecedent_cfs = [1 / 5], e_rule_cf = 1, e_old_cf = 0,
            e_new_cf = 1 / 5, e_note = []\<rparr>,
      \<lparr>e_rule_id = ''R2'', e_if = [''A''], e_then = ''B'',
            e_antecedent_cfs = [1 / 2], e_rule_cf = 1, e_old_cf = 1 / 5,
            e_new_cf = 3 / 5, e_note = []\<rparr>])"
proof -
  let ?r = "\<lparr>r_id = ''R1'', r_if = [''B''], r_then = ''C'', r_cf = None, r_note = ''''\<rparr>"
  let ?st = "\<lparr>es_cf_facts = [(''A'', 1 / 2), (''B'', 3 / 5), (''C'', 1 / 5)],
      es_trace = [\<lparr>e_rule_id = ''R1'', e_if = [''B''], e_then = ''C'',
            e_antecedent_cfs = [1 / 5], e_rule_cf = 1, e_old_cf = 0,
            e_new_cf = 1 / 5, e_note = []\<rparr>],
      rules_fired = False\<rparr>"
  let ?tr = "[\<lparr>e_rule_id = ''R1'', e_if = [''B''], e_then = ''C'',
            e_antecedent_cfs = [1 / 5], e_rule_cf = 1, e_old_cf = 0,
            e_new_cf = 1 / 5, e_note = []\<rparr>,
      \<lparr>e_rule_id = ''R2'', e_if = [''A''], e_then = ''B'',
            e_antecedent_cfs = [1 / 2], e_rule_cf = 1, e_old_cf = 1 / 5,
            e_new_cf = 3 / 5, e_note = []\<rparr>]"
  have run: "ExpertSystem_forward_chaining 2 chain_kb [(''A'', 1 / 2), (''B'', 1 / 5)] =
      Some (Inr ([(''A'', 1 / 2), (''B'', 3 / 5), (''C'', 1 / 5)], ?tr))"
    by code_simp
  have present: "map_of (es_cf_facts ?st) (r_then ?r) \<noteq> None"
    by simp
  have fired: "r_id ?r \<in> set (map e_rule_id (es_trace ?st))"
    by simp
  have ids: "distinct (map r_id (rules chain_kb))"
    by (simp add: chain_kb_def)
  from ExpertSystem_rule_fires_once
    [of ?st ?r 2 chain_kb "[(''A'', 1 / 2), (''B'', 1 / 5)]"
        "[(''A'', 1 / 2), (''B'', 3 / 5), (''C'', 1 / 5)]" ?tr]
    run present fired ids
  show ?thesis
    by blast
qed

section \<open>Termination of the fixed-point loop\<close>

subsection \<open>A knowledge base on which the loop does not end\<close>

lemma cycle_pass_at:
  assumes "(a, b, m1, m2) \<in> set cycle_orbit"
  shows "\<exists>st'. rules_pass (rules cycle_kb)
            \<lparr>cf_facts = [(''A'', a), (''B'', b)], applied_rules = [(''R1'', m1), (''R2'', m2)],
             fired_trace = tr, changed = False\<rparr> = Inr st' \<and> changed st' \<and> on_cycle st'"
  using assms unfolding cycle_orbit_def
  apply (simp only: list.set insert_iff empty_iff prod.inject)
  apply (elim disjE conjE FalseE; hypsubst)
  apply (simp_all add: cycle_kb_def rule_step_def py_min_def rule_strength_def combine_cf_def
           py_truediv_def Let_def on_cycle_def cycle_orbit_def)
  done

lemma cycle_pass:
  assumes "on_cycle st"
  shows "\<exists>st'. rules_pass (rules cycle_kb) (st\<lparr>changed := False\<rparr>) = Inr st' \<and> changed st' \<and> on_cycle st'"
proof -
  from assms obtain a b m1 m2 where orb: "(a, b, m1, m2) \<in> set cycle_orbit"
    and f: "cf_facts st = [(''A'', a), (''B'', b)]" and m: "applied_rules st = [(''R1'', m1), (''R2'', m2)]"
    by (auto simp: on_cycle_def)
  have "st\<lparr>changed := False\<rparr> =
      \<lparr>cf_facts = [(''A'', a), (''B'', b)], applied_rules = [(''R1'', m1), (''R2'', m2)],
       fired_trace = fired_trace st, changed = False\<rparr>"
    using f m by simp
  with cycle_pass_at [OF orb, of "fired_trace st"] show ?thesis
    by simp
qed

lemma cycle_never_ends: "on_cycle st \<Longrightarrow> changed st \<Longrightarrow> while_changed fuel (rules cycle_kb) st = None"
proof (induction fuel arbitrary: st)
  case 0
  then show ?case by simp
next
  case (Suc fuel)
  from cycle_pass [OF Suc.prems(1)] obtain st' where
    p: "rules_pass (rules cycle_kb) (st\<lparr>changed := False\<rparr>) = Inr st'" and c: "changed st'" and o: "on_cycle st'"
    by blast
  from Suc.IH [OF o c] p Suc.prems(2) show ?case
    by simp
qed

lemma cycle_first_pass:
  "\<exists>st'. rules_pass (rules cycle_kb) ((initial_state cycle_kb cycle_input)\<lparr>changed := False\<rparr>) = Inr st' \<and>
         changed st' \<and> on_cycle st'"
  by (simp add: initial_state_def cycle_input_def base_cf_of_def dict_of_def seed_fact_def py_float_def
      cycle_kb_def rule_step_def py_min_def rule_strength_def combine_cf_def
      py_truediv_def Let_def on_cycle_def cycle_orbit_def)

text \<open>
  C5, as the specification has it, fails: on the two rules of \<open>cycle_kb\<close> and the input
  \<open>A = 0.25\<close>, \<open>B = 0.625\<close> every pass commits two changes, the memo never matches, and
  the loop of \<^verbatim>\<open>forward_chaining\<close> of engine.py does not end with any amount of fuel. (The
  six states are dyadic rationals; the run is the same in binary floating point.)
\<close>

theorem forward_chaining_cycle_counterexample:
  "\<forall>fuel. forward_chaining fuel cycle_kb cycle_input = None"
proof
  fix fuel
  have "while_changed fuel (rules cycle_kb) (initial_state cycle_kb cycle_input) = None"
  proof (cases fuel)
    case 0
    then show ?thesis by (simp add: initial_state_def)
  next
    case (Suc n)
    from cycle_first_pass obtain st' where
      p: "rules_pass (rules cycle_kb) ((initial_state cycle_kb cycle_input)\<lparr>changed := False\<rparr>) = Inr st'"
      and c: "changed st'" and o: "on_cycle st'"
      by blast
    have "changed (initial_state cycle_kb cycle_input)"
      by (simp add: initial_state_def)
    with cycle_never_ends [OF o c, of n] p Suc show ?thesis
      by simp
  qed
  then show "forward_chaining fuel cycle_kb cycle_input = None"
    by (simp add: forward_chaining_def)
qed

subsection \<open>Acyclic rules with distinct ids: the loop ends\<close>

lemma antecedent_cf_update:
  "c \<notin> set (r_if r) \<Longrightarrow> antecedent_cf (AList.update c v facts) r = antecedent_cf facts r"
proof -
  assume "c \<notin> set (r_if r)"
  then have "\<forall>a \<in> set (r_if r). map_of (AList.update c v facts) a = map_of facts a"
    by (auto simp: update_conv')
  then have "antecedent_loop (AList.update c v facts) (r_if r) [] = antecedent_loop facts (r_if r) []"
    by (rule antecedent_loop_cong)
  then show ?thesis
    by (simp add: antecedent_cf_def)
qed

lemma sum_decrease:
  fixes f f' g w :: "'a \<Rightarrow> nat"
  assumes fin: "finite S" and r0: "r0 \<in> S" and card: "card S \<le> W"
    and f0: "f r0 = w r0" and f0': "f' r0 = 0" and pos: "0 < w r0"
    and le: "\<forall>r \<in> S - {r0}. f' r \<le> f r + g r"
    and small: "\<forall>r \<in> S - {r0}. W * g r \<le> w r0"
  shows "sum f' S < sum f S"
proof -
  let ?T = "S - {r0}"
  have finT: "finite ?T" using fin by simp
  have cT: "card ?T < W"
    using fin r0 card by (metis card_Diff1_less le_trans not_less)
  have "W * sum g ?T = (\<Sum>r \<in> ?T. W * g r)"
    by (simp add: sum_distrib_left)
  also have "\<dots> \<le> (\<Sum>r \<in> ?T. w r0)"
    using small by (intro sum_mono) simp
  also have "\<dots> = card ?T * w r0"
    by simp
  also have "\<dots> < W * w r0"
    using cT pos by simp
  finally have g: "sum g ?T < w r0"
    by simp
  have "sum f' S = f' r0 + sum f' ?T"
    using fin r0 by (simp add: sum.remove)
  also have "\<dots> = sum f' ?T"
    by (simp add: f0')
  also have "\<dots> \<le> (\<Sum>r \<in> ?T. f r + g r)"
    using le by (intro sum_mono) simp
  also have "\<dots> = sum f ?T + sum g ?T"
    by (simp add: sum.distrib)
  also have "\<dots> < sum f ?T + w r0"
    using g by simp
  also have "\<dots> = sum f S"
    using fin r0 by (simp add: sum.remove f0)
  finally show ?thesis .
qed


lemma potential_changed: "potential h rs (st\<lparr>changed := b\<rparr>) = potential h rs st"
  by (simp add: potential_def blocked_def cong: option.case_cong)

lemma rule_step_progress:
  assumes step: "rule_step r0 st = Inr st'"
    and ids: "distinct (map r_id rs)" and r0: "r0 \<in> set rs"
    and acyclic: "\<forall>r \<in> set rs. \<forall>a \<in> set (r_if r). h (r_then r) < h a"
  shows "st' = st \<or>
     (potential h rs st' < potential h rs st \<and> changed st' \<and>
      length (fired_trace st') = Suc (length (fired_trace st)))"
proof (rule rule_step_cases [of r0 st])
  assume "rule_step r0 st = Inr st"
  with step show ?thesis by simp
next
  fix cfs c new
  assume loop: "antecedent_loop (cf_facts st) (r_if r0) [] = (cfs, False)" and ne: "cfs \<noteq> []"
    and pm: "py_min cfs = Inr c"
    and guard: "\<forall>p. map_of (applied_rules st) (r_id r0) = Some p \<longrightarrow> \<not> \<bar>p - c\<bar> < 1 / 10 ^ 9"
    and fire: "rule_step r0 st = Inr
         \<lparr>cf_facts = AList.update (r_then r0) new (cf_facts st),
          applied_rules = AList.update (r_id r0) c (applied_rules st),
          fired_trace = fired_trace st @
            [\<lparr>t_rule_id = r_id r0, t_if = r_if r0, t_antecedent_cfs = cfs, t_cf_antecedent = c,
              t_rule_cf = rule_strength r0, t_rule_contribution = rule_strength r0 * c,
              t_conclusion = r_then r0,
              t_old_cf = (case map_of (cf_facts st) (r_then r0) of Some v \<Rightarrow> v | None \<Rightarrow> 0),
              t_new_cf = new, t_note = r_note r0\<rparr>],
          changed = True\<rparr>"
  from fire step have facts': "cf_facts st' = AList.update (r_then r0) new (cf_facts st)"
    and memo': "applied_rules st' = AList.update (r_id r0) c (applied_rules st)"
    and ch: "changed st'"
    and len: "length (fired_trace st') = Suc (length (fired_trace st))"
    by auto
  let ?W = "length rs + 1"
  let ?w = "\<lambda>r. ?W ^ h (r_then r)"
  let ?f = "\<lambda>r. if blocked r st then 0 else ?w r"
  let ?f' = "\<lambda>r. if blocked r st' then 0 else ?w r"
  let ?g = "\<lambda>r. if r_then r0 \<in> set (r_if r) then ?w r else 0"
  from acyclic r0 have self: "r_then r0 \<notin> set (r_if r0)"
    by (metis less_irrefl)
  have ac0: "antecedent_cf (cf_facts st) r0 = Some c"
    using loop ne pm by (simp add: antecedent_cf_def)
  have nb: "\<not> blocked r0 st"
    using ac0 guard by (auto simp: blocked_def split: option.splits)
  have b': "blocked r0 st'"
    using ac0 self by (simp add: blocked_def facts' memo' antecedent_cf_update update_conv')
  have inj: "inj_on r_id (set rs)" and dist: "distinct rs"
    using ids by (simp_all add: distinct_map)
  have same: "blocked r st' = blocked r st"
    if "r \<in> set rs" "r \<noteq> r0" "r_then r0 \<notin> set (r_if r)" for r
  proof -
    from that(1,2) r0 inj have "r_id r \<noteq> r_id r0"
      by (auto dest: inj_onD)
    then show ?thesis
      using that(3)
      by (simp add: blocked_def facts' memo' antecedent_cf_update update_conv' cong: option.case_cong)
  qed
  have le: "\<forall>r \<in> set rs - {r0}. ?f' r \<le> ?f r + ?g r"
    using same by auto
  have small: "\<forall>r \<in> set rs - {r0}. ?W * ?g r \<le> ?w r0"
  proof
    fix r
    assume r: "r \<in> set rs - {r0}"
    show "?W * ?g r \<le> ?w r0"
    proof (cases "r_then r0 \<in> set (r_if r)")
      case False
      then show ?thesis by simp
    next
      case True
      with acyclic r have "Suc (h (r_then r)) \<le> h (r_then r0)"
        by (simp add: Suc_le_eq)
      then have "?W ^ Suc (h (r_then r)) \<le> ?W ^ h (r_then r0)"
        by (intro power_increasing) simp_all
      with True show ?thesis by simp
    qed
  qed
  have "sum ?f' (set rs) < sum ?f (set rs)"
  proof (rule sum_decrease [where g = ?g and w = ?w and W = ?W and ?r0.0 = r0])
    show "finite (set rs)" by simp
    show "r0 \<in> set rs" by (rule r0)
    show "card (set rs) \<le> ?W" using card_length [of rs] by simp
    show "?f r0 = ?w r0" using nb by simp
    show "?f' r0 = 0" using b' by simp
    show "0 < ?w r0" by simp
    show "\<forall>r \<in> set rs - {r0}. ?f' r \<le> ?f r + ?g r" by (rule le)
    show "\<forall>r \<in> set rs - {r0}. ?W * ?g r \<le> ?w r0" by (rule small)
  qed
  then have "potential h rs st' < potential h rs st"
    using dist by (simp add: potential_def sum_list_distinct_conv_sum_set)
  with ch len show ?thesis by simp
qed


lemma rules_pass_progress:
  assumes "rules_pass rs' st = Inr st'" and "set rs' \<subseteq> set rs"
    and ids: "distinct (map r_id rs)"
    and acyclic: "\<forall>r \<in> set rs. \<forall>a \<in> set (r_if r). h (r_then r) < h a"
  shows "st' = st \<or> (potential h rs st' < potential h rs st \<and> changed st')"
  using assms(1,2)
proof (induction rs' arbitrary: st)
  case Nil
  then show ?case by simp
next
  case (Cons r rs')
  from Cons.prems(1) obtain st1 where 1: "rule_step r st = Inr st1" and 2: "rules_pass rs' st1 = Inr st'"
    by (auto split: sum.splits)
  from Cons.prems(2) have r: "r \<in> set rs" and sub: "set rs' \<subseteq> set rs"
    by auto
  from rule_step_progress [OF 1 ids r acyclic]
  have a: "st1 = st \<or> (potential h rs st1 < potential h rs st \<and> changed st1)"
    by blast
  from Cons.IH [OF 2 sub]
  have b: "st' = st1 \<or> (potential h rs st' < potential h rs st1 \<and> changed st')" .
  from a b show ?case
    by (metis less_trans)
qed

lemma while_changed_ends:
  assumes ids: "distinct (map r_id rs)"
    and acyclic: "\<forall>r \<in> set rs. \<forall>a \<in> set (r_if r). h (r_then r) < h a"
  shows "potential h rs st \<le> n \<Longrightarrow> \<exists>st'. while_changed (Suc n) rs st = Some (Inr st')"
proof (induction n arbitrary: st)
  case 0
  obtain st1 where p: "rules_pass rs (st\<lparr>changed := False\<rparr>) = Inr st1"
    using rules_pass_Inr by blast
  from rules_pass_progress [OF p subset_refl ids acyclic] 0
  have "st1 = st\<lparr>changed := False\<rparr>"
    by (simp add: potential_changed)
  with p show ?case by simp
next
  case (Suc n)
  obtain st1 where p: "rules_pass rs (st\<lparr>changed := False\<rparr>) = Inr st1"
    using rules_pass_Inr by blast
  from rules_pass_progress [OF p subset_refl ids acyclic]
  have "st1 = st\<lparr>changed := False\<rparr> \<or> potential h rs st1 < potential h rs st"
    by (auto simp: potential_changed)
  then show ?case
  proof
    assume "st1 = st\<lparr>changed := False\<rparr>"
    with p show ?thesis by simp
  next
    assume "potential h rs st1 < potential h rs st"
    with Suc.prems have "potential h rs st1 \<le> n" by simp
    from Suc.IH [OF this] p show ?thesis
      by (cases "changed st") simp_all
  qed
qed

lemma while_changed_unchanged: "\<not> changed st \<Longrightarrow> while_changed n rs st = Some (Inr st)"
  by (cases n) simp_all

lemma while_changed_more_fuel:
  "while_changed n rs st = Some res \<Longrightarrow> while_changed (n + m) rs st = Some res"
proof (induction n arbitrary: st)
  case 0
  then show ?case
    by (auto simp: while_changed_unchanged split: if_splits)
next
  case (Suc n)
  show ?case
  proof (cases "changed st")
    case False
    with Suc.prems show ?thesis by simp
  next
    case True
    obtain st1 where p: "rules_pass rs (st\<lparr>changed := False\<rparr>) = Inr st1"
      using rules_pass_Inr by blast
    with True Suc.prems have "while_changed n rs st1 = Some res" by simp
    from Suc.IH [OF this] True p show ?thesis by simp
  qed
qed

lemma height_of_rank:
  fixes rank :: "string \<Rightarrow> nat"
  assumes "\<forall>r \<in> set rs. \<forall>a \<in> set (r_if r). rank a < rank (r_then r)"
  shows "\<exists>h :: string \<Rightarrow> nat. \<forall>r \<in> set rs. \<forall>a \<in> set (r_if r). h (r_then r) < h a"
proof -
  define K where "K = sum_list (map (\<lambda>r. rank (r_then r)) rs)"
  have K: "rank (r_then r) \<le> K" if "r \<in> set rs" for r
    unfolding K_def using that by (simp add: member_le_sum_list)
  have "\<forall>r \<in> set rs. \<forall>a \<in> set (r_if r). K - rank (r_then r) < K - rank a"
  proof (intro ballI)
    fix r a
    assume r: "r \<in> set rs" and a: "a \<in> set (r_if r)"
    with assms have "rank a < rank (r_then r)" by blast
    moreover from K [OF r] have "rank (r_then r) \<le> K" .
    ultimately show "K - rank (r_then r) < K - rank a" by arith
  qed
  then show ?thesis
    by (intro exI [of _ "\<lambda>c. K - rank c"])
qed

lemma rule_step_commit_or_skip:
  "rule_step r st = Inr st' \<Longrightarrow>
   st' = st \<or> (changed st' \<and> length (fired_trace st) < length (fired_trace st'))"
  by (rule rule_step_cases [of r st]) auto

lemma rules_pass_commit_or_skip:
  "rules_pass rs st = Inr st' \<Longrightarrow>
   st' = st \<or> (changed st' \<and> length (fired_trace st) < length (fired_trace st'))"
proof (induction rs arbitrary: st)
  case Nil
  then show ?case by simp
next
  case (Cons r rs)
  from Cons.prems obtain st1 where 1: "rule_step r st = Inr st1" and 2: "rules_pass rs st1 = Inr st'"
    by (auto split: sum.splits)
  from rule_step_commit_or_skip [OF 1] Cons.IH [OF 2] show ?case
    by (metis less_trans)
qed

text \<open>
  C5, as the code has it. A pass that ends with \<^verbatim>\<open>changed\<close> unset has left every variable of
  the loop as it was, and a pass that ends with \<^verbatim>\<open>changed\<close> set has appended to the trace.
  When the rule ids are pairwise distinct and the rules are acyclic, that is, the fact codes
  can be ranked so that every antecedent of a rule ranks strictly below its conclusion,
  \<^verbatim>\<open>forward_chaining\<close> of engine.py returns: some amount of fuel is enough, and any larger
  amount gives the same result. (A firing holds its own rule back and can release only rules
  of higher rank, so the potential falls with every firing.)
\<close>

theorem forward_chaining_terminates_acyclic:
  fixes rank :: "string \<Rightarrow> nat"
  shows "(rules_pass rs (st\<lparr>changed := False\<rparr>) = Inr st' \<longrightarrow>
      (if changed st' then length (fired_trace st) < length (fired_trace st')
       else st' = st\<lparr>changed := False\<rparr>)) \<and>
   (distinct (map r_id (rules k)) \<and>
    (\<forall>r \<in> set (rules k). \<forall>a \<in> set (r_if r). rank a < rank (r_then r)) \<longrightarrow>
      (\<exists>fuel final_facts trace. \<forall>fuel' \<ge> fuel.
         forward_chaining fuel' k input_facts = Some (Inr (final_facts, trace))))"
proof (intro conjI impI)
  assume "rules_pass rs (st\<lparr>changed := False\<rparr>) = Inr st'"
  from rules_pass_commit_or_skip [OF this]
  show "if changed st' then length (fired_trace st) < length (fired_trace st')
       else st' = st\<lparr>changed := False\<rparr>"
    by auto
next
  assume "distinct (map r_id (rules k)) \<and>
    (\<forall>r \<in> set (rules k). \<forall>a \<in> set (r_if r). rank a < rank (r_then r))"
  then have ids: "distinct (map r_id (rules k))"
    and rank: "\<forall>r \<in> set (rules k). \<forall>a \<in> set (r_if r). rank a < rank (r_then r)"
    by simp_all
  from height_of_rank [OF rank] obtain h :: "string \<Rightarrow> nat"
    where h: "\<forall>r \<in> set (rules k). \<forall>a \<in> set (r_if r). h (r_then r) < h a"
    by blast
  let ?st0 = "initial_state k input_facts"
  let ?n = "Suc (potential h (rules k) ?st0)"
  from while_changed_ends [OF ids h le_refl]
  obtain st1 where w: "while_changed ?n (rules k) ?st0 = Some (Inr st1)"
    by blast
  have "\<forall>fuel' \<ge> ?n. forward_chaining fuel' k input_facts =
      Some (Inr (remap (finalize (cf_facts st1)), fired_trace st1))"
  proof (intro allI impI)
    fix fuel'
    assume "?n \<le> fuel'"
    then obtain m where "fuel' = ?n + m"
      using le_Suc_ex by blast
    with while_changed_more_fuel [OF w, of m]
    show "forward_chaining fuel' k input_facts =
      Some (Inr (remap (finalize (cf_facts st1)), fired_trace st1))"
      by (simp add: forward_chaining_def)
  qed
  then show "\<exists>fuel final_facts trace. \<forall>fuel' \<ge> fuel.
         forward_chaining fuel' k input_facts = Some (Inr (final_facts, trace))"
    by blast
qed

theorem forward_chaining_terminates_acyclic_witness:
  "\<exists>fuel final_facts trace. \<forall>fuel' \<ge> fuel.
     forward_chaining fuel' chain_kb [(''A'', Convertible (1 / 2)), (''B'', Convertible (1 / 5))] =
       Some (Inr (final_facts, trace))"
proof -
  let ?rank = "\<lambda>c. if c = ''C'' then 2 else if c = ''B'' then 1 else (0 :: nat)"
  have ids: "distinct (map r_id (rules chain_kb))"
    by (simp add: chain_kb_def)
  have acyclic: "\<forall>r \<in> set (rules chain_kb). \<forall>a \<in> set (r_if r). ?rank a < ?rank (r_then r)"
    by (simp add: chain_kb_def)
  from forward_chaining_terminates_acyclic
    [where k = chain_kb and rank = ?rank
       and input_facts = "[(''A'', Convertible (1 / 2)), (''B'', Convertible (1 / 5))]"]
    ids acyclic
  show ?thesis
    by blast
qed

end
